theory Spec2Isabelle
  imports Main
begin

section \<open>Go slices and run-time panics\<close>

text \<open>
  Both containers keep their elements in a Go slice \<^verbatim>\<open>items []T\<close>. A slice is modelled
  by the list of its elements; \<^verbatim>\<open>len\<close> is an \<^verbatim>\<open>int\<close> in Go, so indices are
  integers here and an index of \<open>-1\<close> is a value the model can see. Indexing and slicing
  outside the bounds panic in Go; the panic is a value of the model.
\<close>

datatype fault = IndexOutOfRange | SliceBoundsOutOfRange | SendOnClosedChannel

definition len :: "'a list \<Rightarrow> int" where
  "len xs = int (length xs)"

text \<open>\<^verbatim>\<open>xs[i]\<close>\<close>

definition go_index :: "'a list \<Rightarrow> int \<Rightarrow> fault + 'a" where
  "go_index xs i = (if 0 \<le> i \<and> i < len xs then Inr (xs ! nat i) else Inl IndexOutOfRange)"

text \<open>
  \<^verbatim>\<open>xs[lo:hi]\<close>. Go allows \<open>hi\<close> up to the capacity of the slice; the containers only
  ever slice up to the length, which never exceeds the capacity, so the bound used here
  is the length.
\<close>

definition go_slice :: "'a list \<Rightarrow> int \<Rightarrow> int \<Rightarrow> fault + 'a list" where
  "go_slice xs lo hi =
     (if 0 \<le> lo \<and> lo \<le> hi \<and> hi \<le> len xs
      then Inr (take (nat hi - nat lo) (drop (nat lo) xs))
      else Inl SliceBoundsOutOfRange)"

section \<open>Package queue: the first-in-first-out sequence\<close>

text \<open>
  \<^verbatim>\<open>type Queue[T any] struct { items []T }\<close>. The methods have pointer receivers and
  update the queue in place; the model passes the queue in and returns the queue after
  the call. The zero value of the element type \<^verbatim>\<open>T\<close> (\<^verbatim>\<open>var default_val T\<close>) is
  the parameter \<open>z\<close>.
\<close>

record 'a Queue =
  q_items :: "'a list"

definition queue_New :: "'a Queue" where
  "queue_New = \<lparr>q_items = []\<rparr>"

definition queue_Add :: "'a Queue \<Rightarrow> 'a \<Rightarrow> 'a Queue" where
  "queue_Add q item = q\<lparr>q_items := q_items q @ [item]\<rparr>"

definition queue_Next :: "'a \<Rightarrow> 'a Queue \<Rightarrow> fault + ('a \<times> bool \<times> 'a Queue)" where
  "queue_Next z q =
     (if len (q_items q) = 0 then Inr (z, False, q)
      else case go_index (q_items q) 0 of
             Inl e \<Rightarrow> Inl e
           | Inr item \<Rightarrow>
               (case go_slice (q_items q) 1 (len (q_items q)) of
                  Inl e \<Rightarrow> Inl e
                | Inr rest \<Rightarrow> Inr (item, True, q\<lparr>q_items := rest\<rparr>)))"

definition queue_Peek :: "'a \<Rightarrow> 'a Queue \<Rightarrow> fault + ('a \<times> bool \<times> 'a Queue)" where
  "queue_Peek z q =
     (if len (q_items q) = 0 then Inr (z, False, q)
      else case go_index (q_items q) 0 of
             Inl e \<Rightarrow> Inl e
           | Inr item \<Rightarrow> Inr (item, True, q))"

definition queue_IsEmpty :: "'a Queue \<Rightarrow> bool" where
  "queue_IsEmpty q = (len (q_items q) = 0)"

section \<open>Package stack: the last-in-first-out sequence\<close>

record 'a Stack =
  items :: "'a list"

definition stack_New :: "'a Stack" where
  "stack_New = \<lparr>items = []\<rparr>"

definition Push :: "'a Stack \<Rightarrow> 'a \<Rightarrow> 'a Stack" where
  "Push s item = s\<lparr>items := items s @ [item]\<rparr>"

definition Pop :: "'a \<Rightarrow> 'a Stack \<Rightarrow> fault + ('a \<times> bool \<times> 'a Stack)" where
  "Pop z s =
     (if len (items s) = 0 then Inr (z, False, s)
      else case go_index (items s) (len (items s) - 1) of
             Inl e \<Rightarrow> Inl e
           | Inr item \<Rightarrow>
               (case go_slice (items s) 0 (len (items s) - 1) of
                  Inl e \<Rightarrow> Inl e
                | Inr rest \<Rightarrow> Inr (item, True, s\<lparr>items := rest\<rparr>)))"

definition stack_Peek :: "'a \<Rightarrow> 'a Stack \<Rightarrow> fault + ('a \<times> bool \<times> 'a Stack)" where
  "stack_Peek z s =
     (if len (items s) = 0 then Inr (z, False, s)
      else case go_index (items s) (len (items s) - 1) of
             Inl e \<Rightarrow> Inl e
           | Inr item \<Rightarrow> Inr (item, True, s))"

definition stack_IsEmpty :: "'a Stack \<Rightarrow> bool" where
  "stack_IsEmpty s = (len (items s) = 0)"

section \<open>Filling and draining a sequence\<close>

text \<open>
  \<^verbatim>\<open>main\<close> fills a stack by pushing the items one after the other; the same loop fills
  a queue. Draining is the caller's loop that calls the removal operation again and again
  and stops at the first call that reports \<open>found = false\<close>; it collects the items in
  the order in which they come out. The recursion ends because every successful removal
  shortens the slice.
\<close>

definition push_all :: "'a list \<Rightarrow> 'a Stack" where
  "push_all xs = foldl Push stack_New xs"

definition add_all :: "'a list \<Rightarrow> 'a Queue" where
  "add_all xs = foldl queue_Add queue_New xs"

function stack_drain :: "'a \<Rightarrow> 'a Stack \<Rightarrow> fault + 'a list" where
  "stack_drain z s =
     (case Pop z s of
        Inl e \<Rightarrow> Inl e
      | Inr (item, found, s') \<Rightarrow>
          if found
          then (case stack_drain z s' of Inl e \<Rightarrow> Inl e | Inr rest \<Rightarrow> Inr (item # rest))
          else Inr [])"
  by pat_completeness auto
termination
  by (relation "measure (\<lambda>(z, s). length (items s))")
     (auto simp: Pop_def go_index_def go_slice_def len_def nat_diff_distrib' split: if_splits sum.splits)

function queue_drain :: "'a \<Rightarrow> 'a Queue \<Rightarrow> fault + 'a list" where
  "queue_drain z q =
     (case queue_Next z q of
        Inl e \<Rightarrow> Inl e
      | Inr (item, found, q') \<Rightarrow>
          if found
          then (case queue_drain z q' of Inl e \<Rightarrow> Inl e | Inr rest \<Rightarrow> Inr (item # rest))
          else Inr [])"
  by pat_completeness auto
termination
  by (relation "measure (\<lambda>(z, q). length (q_items q))")
     (auto simp: queue_Next_def go_index_def go_slice_def len_def nat_diff_distrib' split: if_splits sum.splits)

section \<open>The validators of \<^verbatim>\<open>main\<close>\<close>

text \<open>
  Go's \<^verbatim>\<open>%\<close> truncates towards zero: the remainder has the sign of the dividend. The
  divisor in \<^verbatim>\<open>validate_int\<close> is the constant 2, so the division cannot panic. The
  items are far below the range of a 64-bit \<^verbatim>\<open>int\<close>, so they are plain integers here.
\<close>

definition go_rem :: "int \<Rightarrow> int \<Rightarrow> int" where
  "go_rem a b = sgn a * (\<bar>a\<bar> mod \<bar>b\<bar>)"

definition validate_int :: "int \<Rightarrow> bool" where
  "validate_int n = (go_rem n 2 = 0)"

section \<open>The worker\<close>

text \<open>
  A worker is at one of four places of its loop: waiting to receive from \<^verbatim>\<open>in\<close>
  (\<open>WRecv\<close>), holding a received item that it has not validated yet (\<open>WHave\<close>), waiting
  to send the verdict on \<^verbatim>\<open>out\<close> (\<open>WSend\<close>), or past the loop (\<open>WDone\<close>). What it
  does next is an event: it takes an item from the channel, it sees the channel closed,
  it calls the validator, or it hands a verdict over. The progress lines it prints are
  left out.
\<close>

datatype 'a wstate = WRecv | WHave 'a | WSend bool | WDone

datatype 'a wevent = EvRecv 'a | EvClosed | EvValidate | EvSend bool

fun wstep :: "('a \<Rightarrow> bool) \<Rightarrow> 'a wstate \<Rightarrow> 'a wevent \<Rightarrow> 'a wstate option" where
  "wstep validate WRecv (EvRecv item) = Some (WHave item)"
| "wstep validate WRecv EvClosed = Some WDone"
| "wstep validate (WHave item) EvValidate = Some (WSend (validate item))"
| "wstep validate (WSend valid) (EvSend b) = (if b = valid then Some WRecv else None)"
| "wstep validate _ _ = None"

text \<open>A run of one worker: the events it goes through, from a given place.\<close>

fun wrun :: "('a \<Rightarrow> bool) \<Rightarrow> 'a wstate \<Rightarrow> 'a wevent list \<Rightarrow> 'a wstate option" where
  "wrun validate w [] = Some w"
| "wrun validate w (e # es) =
     (case wstep validate w e of None \<Rightarrow> None | Some w' \<Rightarrow> wrun validate w' es)"

text \<open>The items a run received and the verdicts it sent, in order.\<close>

fun received :: "'a wevent list \<Rightarrow> 'a list" where
  "received [] = []"
| "received (EvRecv item # es) = item # received es"
| "received (_ # es) = received es"

fun sent :: "'a wevent list \<Rightarrow> bool list" where
  "sent [] = []"
| "sent (EvSend b # es) = b # sent es"
| "sent (_ # es) = sent es"

section \<open>The pipeline of \<^verbatim>\<open>main\<close>\<close>

text \<open>
  The coordinator is the loop of \<^verbatim>\<open>main\<close>: at the loop head (\<open>CLoop\<close>) it tests
  \<^verbatim>\<open>IsEmpty\<close> and either pops an item, or closes the input channel and is done
  (\<open>CDone\<close>); blocked in \<^verbatim>\<open>ch_in <- item\<close> it is at \<open>CSend\<close>, blocked in
  \<^verbatim>\<open><-ch_out\<close> at \<open>CRecv\<close>. Both channels are unbuffered: a send and a receive
  happen together, as one step of the two goroutines involved. A send on a closed channel
  panics. The state of the whole program is the stack, the place of the coordinator, the
  counter, whether the input channel is closed, and the workers with their identifiers.
  The counter is an \<^verbatim>\<open>int\<close> that is incremented at most once per item, so it stays far
  from the 64-bit range and is a plain integer here.
\<close>

datatype 'a cpc = CLoop | CSend 'a | CRecv | CDone | CPanic fault

record 'a pipeline =
  stack :: "'a Stack"
  pc :: "'a cpc"
  num_valid :: int
  closed :: bool
  workers :: "(int \<times> 'a wstate) list"

text \<open>\<^verbatim>\<open>for i := 1; i <= NUM_WORKERS; i++ { go worker(i, ...) }\<close>\<close>

definition start_workers :: "int \<Rightarrow> (int \<times> 'a wstate) list" where
  "start_workers n = map (\<lambda>i. (i, WRecv)) [1..n]"

definition pipeline_init :: "'a Stack \<Rightarrow> int \<Rightarrow> 'a pipeline" where
  "pipeline_init st n =
     \<lparr>stack = st, pc = CLoop, num_valid = 0, closed = False, workers = start_workers n\<rparr>"

text \<open>The steps the coordinator can take alone.\<close>

definition coord_steps :: "'a \<Rightarrow> 'a pipeline \<Rightarrow> 'a pipeline list" where
  "coord_steps z s =
     (case pc s of
        CLoop \<Rightarrow>
          if stack_IsEmpty (stack s) then [s\<lparr>closed := True, pc := CDone\<rparr>]
          else (case Pop z (stack s) of
                  Inl e \<Rightarrow> [s\<lparr>pc := CPanic e\<rparr>]
                | Inr (item, found, st') \<Rightarrow> [s\<lparr>stack := st', pc := CSend item\<rparr>])
      | CSend item \<Rightarrow> if closed s then [s\<lparr>pc := CPanic SendOnClosedChannel\<rparr>] else []
      | _ \<Rightarrow> [])"

definition set_worker :: "nat \<Rightarrow> 'a wstate \<Rightarrow> 'a pipeline \<Rightarrow> 'a pipeline" where
  "set_worker i w s = s\<lparr>workers := (workers s)[i := (fst (workers s ! i), w)]\<rparr>"

text \<open>
  The steps worker \<open>i\<close> can take: receive the item the coordinator is sending, see the
  closed channel, validate, or hand its verdict to the coordinator, which counts it.
\<close>

definition worker_steps :: "('a \<Rightarrow> bool) \<Rightarrow> 'a pipeline \<Rightarrow> nat \<Rightarrow> 'a pipeline list" where
  "worker_steps validate s i =
     (let w = snd (workers s ! i) in
        (case pc s of
           CSend item \<Rightarrow>
             if closed s then []
             else (case wstep validate w (EvRecv item) of
                     Some w' \<Rightarrow> [set_worker i w' (s\<lparr>pc := CRecv\<rparr>)]
                   | None \<Rightarrow> [])
         | _ \<Rightarrow> [])
      @ (if closed s
         then (case wstep validate w EvClosed of Some w' \<Rightarrow> [set_worker i w' s] | None \<Rightarrow> [])
         else [])
      @ (case wstep validate w EvValidate of Some w' \<Rightarrow> [set_worker i w' s] | None \<Rightarrow> [])
      @ (case pc s of
           CRecv \<Rightarrow>
             concat (map (\<lambda>b. case wstep validate w (EvSend b) of
                                 Some w' \<Rightarrow>
                                   [set_worker i w'
                                      (s\<lparr>pc := CLoop,
                                         num_valid := (if b then num_valid s + 1 else num_valid s)\<rparr>)]
                               | None \<Rightarrow> [])
                         [False, True])
         | _ \<Rightarrow> []))"

text \<open>Every state the scheduler can move the program to in one step.\<close>

definition succs :: "'a \<Rightarrow> ('a \<Rightarrow> bool) \<Rightarrow> 'a pipeline \<Rightarrow> 'a pipeline list" where
  "succs z validate s =
     coord_steps z s @ concat (map (worker_steps validate s) [0..<length (workers s)])"

definition pstep :: "'a \<Rightarrow> ('a \<Rightarrow> bool) \<Rightarrow> 'a pipeline \<Rightarrow> 'a pipeline \<Rightarrow> bool" where
  "pstep z validate s s' = (s' \<in> set (succs z validate s))"

definition reach :: "'a \<Rightarrow> ('a \<Rightarrow> bool) \<Rightarrow> 'a pipeline \<Rightarrow> 'a pipeline \<Rightarrow> bool" where
  "reach z validate = rtranclp (pstep z validate)"

text \<open>
  One schedule, written as the list of the choices made: at each state the number of the
  successor taken.
\<close>

fun run_sched :: "'a \<Rightarrow> ('a \<Rightarrow> bool) \<Rightarrow> nat list \<Rightarrow> 'a pipeline \<Rightarrow> 'a pipeline" where
  "run_sched z validate [] s = s"
| "run_sched z validate (k # ks) s =
     (if k < length (succs z validate s) then run_sched z validate ks (succs z validate s ! k)
      else s)"

text \<open>\<^verbatim>\<open>const NUM_WORKERS int = 3\<close>\<close>

definition NUM_WORKERS :: int where
  "NUM_WORKERS = 3"

section \<open>Quantities used in the proofs\<close>

text \<open>
  The verdict a worker still owes: it has taken an item and has not yet handed the
  verdict over.
\<close>

fun owed :: "('a \<Rightarrow> bool) \<Rightarrow> 'a wstate \<Rightarrow> bool list" where
  "owed v (WHave item) = [v item]"
| "owed v (WSend b) = [b]"
| "owed v _ = []"

text \<open>
  For the pipeline: whether a worker is between a receive and its send, the verdict it
  will deliver (as 0 or 1), the same for the item the coordinator is about to send, and
  the number of valid items of a list. The invariant \<open>pinv\<close> ties them together: the
  counter, the items still on the stack and the one item in flight always add up to the
  number of valid items the run started with; exactly one worker is busy while the
  coordinator waits for a verdict and none otherwise; no worker has left its loop before
  the channel is closed; the coordinator has not panicked.
\<close>

fun busy :: "'a wstate \<Rightarrow> nat" where
  "busy (WHave item) = 1"
| "busy (WSend b) = 1"
| "busy _ = 0"

fun wpend :: "('a \<Rightarrow> bool) \<Rightarrow> 'a wstate \<Rightarrow> int" where
  "wpend v (WHave item) = (if v item then 1 else 0)"
| "wpend v (WSend b) = (if b then 1 else 0)"
| "wpend v _ = 0"

fun cpend :: "('a \<Rightarrow> bool) \<Rightarrow> 'a cpc \<Rightarrow> int" where
  "cpend v (CSend item) = (if v item then 1 else 0)"
| "cpend v _ = 0"

definition nvalid :: "('a \<Rightarrow> bool) \<Rightarrow> 'a list \<Rightarrow> int" where
  "nvalid v xs = int (length (filter v xs))"

definition pinv :: "('a \<Rightarrow> bool) \<Rightarrow> int \<Rightarrow> 'a pipeline \<Rightarrow> bool" where
  "pinv v n s \<longleftrightarrow>
     (closed s \<longrightarrow> pc s = CDone) \<and>
     (\<not> closed s \<longrightarrow> (\<forall>w \<in> set (workers s). snd w \<noteq> WDone)) \<and>
     sum_list (map (busy \<circ> snd) (workers s)) = (if pc s = CRecv then 1 else 0) \<and>
     num_valid s + nvalid v (items (stack s)) + cpend v (pc s)
       + sum_list (map (wpend v \<circ> snd) (workers s)) = n \<and>
     (\<forall>e. pc s \<noteq> CPanic e) \<and>
     (pc s = CDone \<longrightarrow> items (stack s) = [])"

text \<open>
  A size that every step of the program makes smaller: four units per item on the stack,
  and a weight for the place of the coordinator and of each worker.
\<close>

fun pweight :: "'a cpc \<Rightarrow> nat" where
  "pweight CLoop = 1"
| "pweight (CSend item) = 4"
| "pweight CRecv = 3"
| "pweight _ = 0"

fun wweight :: "'a wstate \<Rightarrow> nat" where
  "wweight WRecv = 1"
| "wweight (WHave item) = 1"
| "wweight _ = 0"

definition psize :: "'a pipeline \<Rightarrow> nat" where
  "psize s = 4 * length (items (stack s)) + pweight (pc s)
            + sum_list (map (wweight \<circ> snd) (workers s))"

text \<open>The invariant of a run on an empty stack: nothing is ever in flight.\<close>

definition idle_inv :: "'a pipeline \<Rightarrow> bool" where
  "idle_inv s \<longleftrightarrow>
     num_valid s = 0 \<and> items (stack s) = [] \<and> (pc s = CLoop \<or> pc s = CDone) \<and>
     (closed s \<longleftrightarrow> pc s = CDone) \<and>
     (\<forall>w \<in> set (workers s). snd w = WRecv \<or> snd w = WDone)"

section \<open>What the removal operations compute\<close>

lemma go_index_last: "xs \<noteq> [] \<Longrightarrow> go_index xs (len xs - 1) = Inr (last xs)"
  by (simp add: go_index_def len_def last_conv_nth nat_diff_distrib')

lemma go_index_first: "xs \<noteq> [] \<Longrightarrow> go_index xs 0 = Inr (hd xs)"
  by (simp add: go_index_def len_def hd_conv_nth)

lemma go_slice_butlast: "xs \<noteq> [] \<Longrightarrow> go_slice xs 0 (len xs - 1) = Inr (butlast xs)"
  by (simp add: go_slice_def len_def butlast_conv_take nat_diff_distrib')

lemma go_slice_tl: "xs \<noteq> [] \<Longrightarrow> go_slice xs 1 (len xs) = Inr (tl xs)"
  by (cases xs) (simp_all add: go_slice_def len_def)

lemma Pop_eq:
  "Pop z s = Inr (if items s = [] then (z, False, s)
                  else (last (items s), True, s\<lparr>items := butlast (items s)\<rparr>))"
  by (simp add: Pop_def go_index_last go_slice_butlast) (simp add: len_def)

lemma stack_Peek_eq:
  "stack_Peek z s = Inr (if items s = [] then (z, False, s) else (last (items s), True, s))"
  by (simp add: stack_Peek_def go_index_last) (simp add: len_def)

lemma queue_Next_eq:
  "queue_Next z q = Inr (if q_items q = [] then (z, False, q)
                         else (hd (q_items q), True, q\<lparr>q_items := tl (q_items q)\<rparr>))"
  by (simp add: queue_Next_def go_index_first go_slice_tl) (simp add: len_def)

lemma queue_Peek_eq:
  "queue_Peek z q = Inr (if q_items q = [] then (z, False, q) else (hd (q_items q), True, q))"
  by (simp add: queue_Peek_def go_index_first) (simp add: len_def)

section \<open>Order of removal\<close>

declare stack_drain.simps [simp del] queue_drain.simps [simp del]

lemma items_foldl_Push: "items (foldl Push s xs) = items s @ xs"
  by (induction xs arbitrary: s) (simp_all add: Push_def)

lemma items_push_all: "items (push_all xs) = xs"
  by (simp add: push_all_def items_foldl_Push stack_New_def)

lemma q_items_foldl_Add: "q_items (foldl queue_Add q xs) = q_items q @ xs"
  by (induction xs arbitrary: q) (simp_all add: queue_Add_def)

lemma q_items_add_all: "q_items (add_all xs) = xs"
  by (simp add: add_all_def q_items_foldl_Add queue_New_def)

lemma stack_drain_eq: "stack_drain z s = Inr (rev (items s))"
proof (induction z s rule: stack_drain.induct)
  case (1 z s)
  show ?case
  proof (cases "items s = []")
    case True
    then show ?thesis by (subst stack_drain.simps) (simp add: Pop_eq)
  next
    case False
    then have "stack_drain z (s\<lparr>items := butlast (items s)\<rparr>) = Inr (rev (butlast (items s)))"
      using "1.IH" [OF Pop_eq] by simp
    moreover obtain ys y where "items s = ys @ [y]"
      using False by (cases "items s" rule: rev_cases) auto
    ultimately show ?thesis
      by (subst stack_drain.simps) (simp add: Pop_eq)
  qed
qed

lemma queue_drain_eq: "queue_drain z q = Inr (q_items q)"
proof (induction z q rule: queue_drain.induct)
  case (1 z q)
  show ?case
  proof (cases "q_items q = []")
    case True
    then show ?thesis by (subst queue_drain.simps) (simp add: queue_Next_eq)
  next
    case False
    then have "queue_drain z (q\<lparr>q_items := tl (q_items q)\<rparr>) = Inr (tl (q_items q))"
      using "1.IH" [OF queue_Next_eq] by simp
    with False show ?thesis
      by (subst queue_drain.simps) (simp add: queue_Next_eq)
  qed
qed

text \<open>
  Claim C2. Pushing the items 1, 2, ..., k in that order onto a fresh stack and then
  calling \<^verbatim>\<open>Pop\<close> until it reports nothing found yields k, k-1, ..., 1, and no call
  panics.
\<close>

theorem stack_drain_lifo: "stack_drain z (push_all [1..k]) = Inr (rev [1..k])"
  by (simp add: stack_drain_eq items_push_all)

text \<open>
  Claim C3. Adding the items 1, 2, ..., k in that order to a fresh queue and then calling
  \<^verbatim>\<open>Next\<close> until it reports nothing found yields 1, 2, ..., k, and no call panics.
\<close>

theorem queue_drain_fifo: "queue_drain z (add_all [1..k]) = Inr [1..k]"
  by (simp add: queue_drain_eq q_items_add_all)

section \<open>The empty sequence, peeking, and the round trip\<close>

text \<open>
  Claim C4. On an empty sequence (the slice has no element) \<^verbatim>\<open>Queue.Next\<close>,
  \<^verbatim>\<open>Queue.Peek\<close>, \<^verbatim>\<open>Stack.Pop\<close> and \<^verbatim>\<open>Stack.Peek\<close> each return the zero value
  of the element type with \<open>found = false\<close>; the call returns normally (it is not a
  panic) and the sequence stays empty.
\<close>

theorem empty_remove_peek_not_found:
  "queue_Next z \<lparr>q_items = []\<rparr> = Inr (z, False, \<lparr>q_items = []\<rparr>) \<and>
   queue_Peek z \<lparr>q_items = []\<rparr> = Inr (z, False, \<lparr>q_items = []\<rparr>) \<and>
   Pop z \<lparr>items = []\<rparr> = Inr (z, False, \<lparr>items = []\<rparr>) \<and>
   stack_Peek z \<lparr>items = []\<rparr> = Inr (z, False, \<lparr>items = []\<rparr>)"
  by (simp add: queue_Next_eq queue_Peek_eq Pop_eq stack_Peek_eq)

text \<open>
  Claim C5. In every state of the sequence, \<^verbatim>\<open>Peek\<close> returns the pair of item and
  \<open>found\<close> that the removal operation (\<^verbatim>\<open>Queue.Next\<close>, \<^verbatim>\<open>Stack.Pop\<close>) returns in
  that state, and the sequence after \<^verbatim>\<open>Peek\<close> is the sequence before it.
\<close>

theorem peek_same_as_remove_and_unchanged:
  "(\<exists>item found q'. queue_Peek z q = Inr (item, found, q) \<and>
                     queue_Next z q = Inr (item, found, q')) \<and>
   (\<exists>item found s'. stack_Peek z s = Inr (item, found, s) \<and>
                     Pop z s = Inr (item, found, s'))"
  by (auto simp add: queue_Next_eq queue_Peek_eq Pop_eq stack_Peek_eq)

text \<open>
  Claim C10. Inserting an item \<open>x\<close> into an empty sequence (\<^verbatim>\<open>Queue.Add\<close>,
  \<^verbatim>\<open>Stack.Push\<close>) and then removing the next item returns \<open>x\<close> with \<open>found = true\<close>
  and leaves the empty sequence, on which \<^verbatim>\<open>IsEmpty\<close> is true.
\<close>

theorem insert_remove_roundtrip:
  "queue_Next z (queue_Add queue_New x) = Inr (x, True, queue_New) \<and>
   queue_IsEmpty queue_New \<and>
   Pop z (Push stack_New x) = Inr (x, True, stack_New) \<and>
   stack_IsEmpty stack_New"
  by (simp add: queue_Next_eq Pop_eq queue_Add_def Push_def queue_New_def stack_New_def
      queue_IsEmpty_def stack_IsEmpty_def len_def)

section \<open>The worker alone\<close>

lemma wrun_append:
  "wrun v w (es @ fs) = (case wrun v w es of None \<Rightarrow> None | Some w' \<Rightarrow> wrun v w' fs)"
  by (induction es arbitrary: w) (auto split: option.splits)

lemma wstep_owed:
  "wstep v w e = Some w' \<Longrightarrow>
     owed v w @ map v (received [e]) = sent [e] @ owed v w'"
  by (cases "(v, w, e)" rule: wstep.cases) (auto split: if_splits)

lemma received_Cons: "received (e # es) = received [e] @ received es"
  by (cases e) simp_all

lemma sent_Cons: "sent (e # es) = sent [e] @ sent es"
  by (cases e) simp_all

lemma wrun_owed:
  "wrun v w es = Some w' \<Longrightarrow> owed v w @ map v (received es) = sent es @ owed v w'"
proof (induction es arbitrary: w)
  case Nil
  then show ?case by simp
next
  case (Cons e es)
  then obtain w1 where s1: "wstep v w e = Some w1" and r: "wrun v w1 es = Some w'"
    by (auto split: option.splits)
  have "owed v w @ map v (received (e # es)) = (owed v w @ map v (received [e])) @ map v (received es)"
    by (subst received_Cons) simp
  also have "\<dots> = sent [e] @ (owed v w1 @ map v (received es))"
    using wstep_owed [OF s1] by simp
  also have "\<dots> = sent [e] @ sent es @ owed v w'"
    using Cons.IH [OF r] by simp
  also have "\<dots> = sent (e # es) @ owed v w'"
    by (subst (2) sent_Cons) simp
  finally show ?case .
qed

lemma wstep_WDone: "wstep v WDone e = None"
  by (cases e) simp_all

lemma wrun_WDone: "wrun v WDone es = Some w' \<Longrightarrow> es = []"
  by (cases es) (simp_all add: wstep_WDone)

lemma length_owed: "length (owed v w) \<le> 1"
  by (cases w) simp_all

lemma sent_append: "sent (es @ fs) = sent es @ sent fs"
  by (induction es rule: sent.induct) simp_all

lemma received_append: "received (es @ fs) = received es @ received fs"
  by (induction es rule: received.induct) simp_all

lemma wstep_WHave_only:
  "wstep v (WHave item) e = Some w' \<longleftrightarrow> e = EvValidate \<and> w' = WSend (v item)"
  by (cases e) auto

lemma wstep_WSend_only:
  "wstep v (WSend b) e = Some w' \<longleftrightarrow> e = EvSend b \<and> w' = WRecv"
  by (cases e) auto

section \<open>Steps of the pipeline\<close>

lemma worker_steps_WRecv:
  "snd (workers s ! i) = WRecv \<Longrightarrow>
   worker_steps v s i =
     (case pc s of
        CSend item \<Rightarrow> if closed s then [] else [set_worker i (WHave item) (s\<lparr>pc := CRecv\<rparr>)]
      | _ \<Rightarrow> [])
     @ (if closed s then [set_worker i WDone s] else [])"
  by (simp add: worker_steps_def Let_def split: cpc.splits)

lemma worker_steps_WHave:
  "snd (workers s ! i) = WHave item \<Longrightarrow>
   worker_steps v s i = [set_worker i (WSend (v item)) s]"
  by (simp add: worker_steps_def Let_def split: cpc.splits)

lemma worker_steps_WSend:
  "snd (workers s ! i) = WSend b \<Longrightarrow>
   worker_steps v s i =
     (case pc s of
        CRecv \<Rightarrow> [set_worker i WRecv
                    (s\<lparr>pc := CLoop, num_valid := (if b then num_valid s + 1 else num_valid s)\<rparr>)]
      | _ \<Rightarrow> [])"
  by (cases b) (simp_all add: worker_steps_def Let_def split: cpc.splits)

lemma worker_steps_WDone:
  "snd (workers s ! i) = WDone \<Longrightarrow> worker_steps v s i = []"
  by (simp add: worker_steps_def Let_def split: cpc.splits)

lemma coord_steps_eq:
  "coord_steps z s =
     (case pc s of
        CLoop \<Rightarrow>
          if items (stack s) = [] then [s\<lparr>closed := True, pc := CDone\<rparr>]
          else [s\<lparr>stack := (stack s)\<lparr>items := butlast (items (stack s))\<rparr>,
                  pc := CSend (last (items (stack s)))\<rparr>]
      | CSend item \<Rightarrow> if closed s then [s\<lparr>pc := CPanic SendOnClosedChannel\<rparr>] else []
      | _ \<Rightarrow> [])"
  by (simp add: coord_steps_def stack_IsEmpty_def Pop_eq len_def split: cpc.splits)

lemma pstep_iff:
  "pstep z v s s' \<longleftrightarrow>
     s' \<in> set (coord_steps z s) \<or> (\<exists>i < length (workers s). s' \<in> set (worker_steps v s i))"
  by (auto simp: pstep_def succs_def)

lemma pstep_cases [consumes 1, case_names close pop send_closed recv stop validate verdict]:
  assumes "pstep z v s s'"
  obtains
    "pc s = CLoop" "items (stack s) = []" "s' = s\<lparr>closed := True, pc := CDone\<rparr>"
  | "pc s = CLoop" "items (stack s) \<noteq> []"
      "s' = s\<lparr>stack := (stack s)\<lparr>items := butlast (items (stack s))\<rparr>,
              pc := CSend (last (items (stack s)))\<rparr>"
  | item where "pc s = CSend item" "closed s" "s' = s\<lparr>pc := CPanic SendOnClosedChannel\<rparr>"
  | i item where "i < length (workers s)" "snd (workers s ! i) = WRecv" "pc s = CSend item"
      "\<not> closed s" "s' = set_worker i (WHave item) (s\<lparr>pc := CRecv\<rparr>)"
  | i where "i < length (workers s)" "snd (workers s ! i) = WRecv" "closed s"
      "s' = set_worker i WDone s"
  | i item where "i < length (workers s)" "snd (workers s ! i) = WHave item"
      "s' = set_worker i (WSend (v item)) s"
  | i b where "i < length (workers s)" "snd (workers s ! i) = WSend b" "pc s = CRecv"
      "s' = set_worker i WRecv
              (s\<lparr>pc := CLoop, num_valid := (if b then num_valid s + 1 else num_valid s)\<rparr>)"
proof -
  from assms consider "s' \<in> set (coord_steps z s)"
    | i where "i < length (workers s)" "s' \<in> set (worker_steps v s i)"
    by (auto simp: pstep_iff)
  then show thesis
  proof cases
    case 1
    then show thesis
      using that(1,2,3) by (cases "pc s") (auto simp: coord_steps_eq split: if_splits)
  next
    case (2 i)
    show thesis
    proof (cases "snd (workers s ! i)")
      case WRecv
      with 2 show thesis
        using that(4) [of i] that(5) [of i]
        by (cases "pc s") (auto simp: worker_steps_WRecv split: if_splits)
    next
      case (WHave item)
      with 2 show thesis using that(6) by (auto simp: worker_steps_WHave)
    next
      case (WSend b)
      with 2 show thesis
        using that(7) [of i] by (cases "pc s") (auto simp: worker_steps_WSend)
    next
      case WDone
      with 2 show thesis by (simp add: worker_steps_WDone)
    qed
  qed
qed


lemma sum_list_map_update:
  fixes f :: "'b \<Rightarrow> 'c::comm_monoid_add"
  shows "i < length xs \<Longrightarrow>
         sum_list (map f (xs[i := y])) + f (xs ! i) = sum_list (map f xs) + f y"
proof (induction xs arbitrary: i)
  case Nil
  then show ?case by simp
next
  case (Cons x xs)
  show ?case
  proof (cases i)
    case 0
    then show ?thesis by (simp add: ac_simps)
  next
    case (Suc j)
    with Cons.prems have "j < length xs" by simp
    from Cons.IH [OF this] show ?thesis using Suc by (simp add: add.assoc)
  qed
qed

lemma workers_set_worker:
  "workers (set_worker i w s) = (workers s)[i := (fst (workers s ! i), w)]"
  by (simp add: set_worker_def)

lemma set_worker_fields:
  "stack (set_worker i w s) = stack s" "pc (set_worker i w s) = pc s"
  "num_valid (set_worker i w s) = num_valid s" "closed (set_worker i w s) = closed s"
  by (simp_all add: set_worker_def)

lemma sum_set_worker:
  fixes f :: "'a wstate \<Rightarrow> 'c::comm_monoid_add"
  assumes "i < length (workers s)"
  shows "sum_list (map (f \<circ> snd) (workers (set_worker i w s))) + f (snd (workers s ! i))
         = sum_list (map (f \<circ> snd) (workers s)) + f w"
  using sum_list_map_update [OF assms, of "f \<circ> snd" "(fst (workers s ! i), w)"]
  by (simp add: workers_set_worker)

lemma not_done_set_worker:
  assumes "\<forall>x \<in> set (workers s). snd x \<noteq> WDone" "w \<noteq> WDone"
  shows "\<forall>x \<in> set (workers (set_worker i w s)). snd x \<noteq> WDone"
proof
  fix x assume "x \<in> set (workers (set_worker i w s))"
  then have "x = (fst (workers s ! i), w) \<or> x \<in> set (workers s)"
    using set_update_subset_insert [of "workers s" i "(fst (workers s ! i), w)"]
    by (auto simp: workers_set_worker)
  with assms show "snd x \<noteq> WDone" by auto
qed

lemma nvalid_butlast:
  "xs \<noteq> [] \<Longrightarrow> nvalid v (butlast xs) + (if v (last xs) then 1 else 0) = nvalid v xs"
  by (cases xs rule: rev_cases) (simp_all add: nvalid_def)

lemma pinv_step:
  assumes "pstep z v s s'" "pinv v n s"
  shows "pinv v n s'"
  using assms(1)
proof (cases rule: pstep_cases)
  case close
  with assms(2) show ?thesis by (simp add: pinv_def)
next
  case pop
  with assms(2) nvalid_butlast [OF pop(2), of v] show ?thesis by (simp add: pinv_def)
next
  case (send_closed item)
  with assms(2) show ?thesis by (simp add: pinv_def)
next
  case (recv i item)
  have b: "sum_list (map (busy \<circ> snd) (workers s')) = sum_list (map (busy \<circ> snd) (workers s)) + 1"
    using sum_set_worker [of i "s\<lparr>pc := CRecv\<rparr>" busy "WHave item"] recv by simp
  have p: "sum_list (map (wpend v \<circ> snd) (workers s'))
           = sum_list (map (wpend v \<circ> snd) (workers s)) + (if v item then 1 else 0)"
    using sum_set_worker [of i "s\<lparr>pc := CRecv\<rparr>" "wpend v" "WHave item"] recv by simp
  have d: "\<forall>x \<in> set (workers s'). snd x \<noteq> WDone"
    using not_done_set_worker [of "s\<lparr>pc := CRecv\<rparr>" "WHave item" i] recv assms(2)
    by (simp add: pinv_def)
  from assms(2) recv b p d show ?thesis
    by (simp add: pinv_def set_worker_fields)
next
  case (stop i)
  have b: "sum_list (map (busy \<circ> snd) (workers s')) = sum_list (map (busy \<circ> snd) (workers s))"
    using sum_set_worker [of i s busy WDone] stop by simp
  have p: "sum_list (map (wpend v \<circ> snd) (workers s')) = sum_list (map (wpend v \<circ> snd) (workers s))"
    using sum_set_worker [of i s "wpend v" WDone] stop by simp
  from assms(2) stop b p show ?thesis
    by (auto simp: pinv_def set_worker_fields)
next
  case (validate i item)
  have b: "sum_list (map (busy \<circ> snd) (workers s')) = sum_list (map (busy \<circ> snd) (workers s))"
    using sum_set_worker [of i s busy "WSend (v item)"] validate by simp
  have p: "sum_list (map (wpend v \<circ> snd) (workers s')) = sum_list (map (wpend v \<circ> snd) (workers s))"
    using sum_set_worker [of i s "wpend v" "WSend (v item)"] validate by simp
  have d: "\<not> closed s \<Longrightarrow> \<forall>x \<in> set (workers s'). snd x \<noteq> WDone"
    using not_done_set_worker [of s "WSend (v item)" i] validate assms(2)
    by (simp add: pinv_def)
  from assms(2) validate b p d show ?thesis
    by (simp add: pinv_def set_worker_fields)
next
  case (verdict i b)
  let ?t = "s\<lparr>pc := CLoop, num_valid := (if b then num_valid s + 1 else num_valid s)\<rparr>"
  have bs: "sum_list (map (busy \<circ> snd) (workers s')) + 1 = sum_list (map (busy \<circ> snd) (workers s))"
    using sum_set_worker [of i ?t busy WRecv] verdict by simp
  have p: "sum_list (map (wpend v \<circ> snd) (workers s')) + (if b then 1 else 0)
           = sum_list (map (wpend v \<circ> snd) (workers s))"
    using sum_set_worker [of i ?t "wpend v" WRecv] verdict by simp
  have d: "\<forall>x \<in> set (workers s'). snd x \<noteq> WDone"
    using not_done_set_worker [of ?t WRecv i] verdict assms(2)
    by (auto simp: pinv_def)
  from assms(2) verdict bs p d show ?thesis
    by (auto simp: pinv_def set_worker_fields)
qed

lemma pinv_init: "pinv v (nvalid v (items st)) (pipeline_init st W)"
  by (simp add: pinv_def pipeline_init_def start_workers_def comp_def)

lemma pinv_reach:
  assumes "reach z v (pipeline_init st W) s"
  shows "pinv v (nvalid v (items st)) s"
  using assms unfolding reach_def
  by (induction rule: rtranclp_induct) (auto intro: pinv_init pinv_step)

lemma length_workers_step: "pstep z v s s' \<Longrightarrow> length (workers s') = length (workers s)"
  by (cases rule: pstep_cases) (auto simp: workers_set_worker)

lemma length_workers_reach:
  assumes "reach z v (pipeline_init st W) s"
  shows "length (workers s) = nat W"
  using assms unfolding reach_def
  by (induction rule: rtranclp_induct)
     (auto simp: pipeline_init_def start_workers_def length_workers_step)

section \<open>Every schedule ends, and ends with the right count\<close>

lemma psize_step:
  assumes "pstep z v s s'"
  shows "psize s' < psize s"
  using assms
proof (cases rule: pstep_cases)
  case close
  then show ?thesis by (simp add: psize_def)
next
  case pop
  then show ?thesis by (cases "items (stack s)" rule: rev_cases) (simp_all add: psize_def)
next
  case (send_closed item)
  then show ?thesis by (simp add: psize_def)
next
  case (recv i item)
  with sum_set_worker [of i "s\<lparr>pc := CRecv\<rparr>" wweight "WHave item"] show ?thesis
    by (simp add: psize_def set_worker_fields)
next
  case (stop i)
  with sum_set_worker [of i s wweight WDone] show ?thesis
    by (simp add: psize_def set_worker_fields)
next
  case (validate i item)
  with sum_set_worker [of i s wweight "WSend (v item)"] show ?thesis
    by (simp add: psize_def set_worker_fields)
next
  case (verdict i b)
  with sum_set_worker [of i "s\<lparr>pc := CLoop, num_valid := (if b then num_valid s + 1 else num_valid s)\<rparr>"
        wweight WRecv]
  show ?thesis
    by (simp add: psize_def set_worker_fields)
qed

lemma wf_pstep: "wf {(s', s). pstep z v s s'}"
proof (rule wf_subset [OF wf_measure [of psize]])
  show "{(s', s). pstep z v s s'} \<subseteq> measure psize"
    by (auto simp: psize_step)
qed

lemma worker_step_succs:
  "i < length (workers s) \<Longrightarrow> worker_steps v s i \<noteq> [] \<Longrightarrow> succs z v s \<noteq> []"
  by (auto simp: succs_def)

lemma sum_list_pos_nth:
  fixes f :: "'b \<Rightarrow> nat"
  shows "sum_list (map f xs) \<noteq> 0 \<Longrightarrow> \<exists>i < length xs. f (xs ! i) \<noteq> 0"
  by (auto simp: in_set_conv_nth)

lemma pinv_progress:
  assumes "pinv v n s" "0 < length (workers s)" "pc s \<noteq> CDone"
  shows "succs z v s \<noteq> []"
proof (cases "pc s")
  case CLoop
  then show ?thesis by (simp add: succs_def coord_steps_eq)
next
  case (CSend item)
  with assms(1) have nc: "\<not> closed s" by (auto simp: pinv_def)
  have "workers s ! 0 \<in> set (workers s)" using assms(2) by simp
  moreover have "\<forall>w \<in> set (workers s). busy (snd w) = 0"
    using assms(1) CSend by (simp add: pinv_def)
  moreover have "\<forall>w \<in> set (workers s). snd w \<noteq> WDone"
    using assms(1) nc by (simp add: pinv_def)
  ultimately have "snd (workers s ! 0) = WRecv"
    by (cases "snd (workers s ! 0)") auto
  then have "worker_steps v s 0 \<noteq> []"
    using CSend nc by (simp add: worker_steps_WRecv)
  with assms(2) show ?thesis by (rule worker_step_succs)
next
  case CRecv
  with assms(1) have "sum_list (map (busy \<circ> snd) (workers s)) \<noteq> 0"
    by (simp add: pinv_def)
  then obtain i where i: "i < length (workers s)" "busy (snd (workers s ! i)) \<noteq> 0"
    using sum_list_pos_nth [of "busy \<circ> snd" "workers s"] by auto
  then have "worker_steps v s i \<noteq> []"
    using CRecv
    by (cases "snd (workers s ! i)") (simp_all add: worker_steps_WHave worker_steps_WSend)
  with i(1) show ?thesis by (rule worker_step_succs)
next
  case CDone
  with assms(3) show ?thesis by simp
next
  case (CPanic e)
  with assms(1) show ?thesis by (simp add: pinv_def)
qed

lemma sum_list_all_zero:
  fixes f :: "'b \<Rightarrow> int"
  shows "\<forall>x \<in> set xs. f x = 0 \<Longrightarrow> sum_list (map f xs) = 0"
  by (induction xs) simp_all

lemma pinv_done:
  assumes "pinv v n s" "pc s = CDone"
  shows "num_valid s = n"
proof -
  have "\<forall>w \<in> set (workers s). busy (snd w) = 0"
    using assms by (simp add: pinv_def)
  then have "\<forall>w \<in> set (workers s). wpend v (snd w) = 0"
    by (metis busy.simps(1,2) wpend.elims zero_neq_one)
  then have "sum_list (map (wpend v \<circ> snd) (workers s)) = 0"
    using sum_list_all_zero [of "workers s" "wpend v \<circ> snd"] by simp
  with assms show ?thesis by (auto simp: pinv_def nvalid_def)
qed

lemma reach_run_sched: "reach z v s (run_sched z v ks s)"
proof (induction ks arbitrary: s)
  case Nil
  show ?case by (simp add: reach_def)
next
  case (Cons k ks)
  show ?case
  proof (cases "k < length (succs z v s)")
    case True
    then have "pstep z v s (succs z v s ! k)" by (simp add: pstep_def)
    with Cons [of "succs z v s ! k"] show ?thesis
      using True by (simp add: reach_def)
  next
    case False
    then show ?thesis by (simp add: reach_def)
  qed
qed

lemma reach_no_panic:
  assumes "reach z v (pipeline_init st W) s"
  shows "pc s \<noteq> CPanic e"
  using pinv_reach [OF assms] by (simp add: pinv_def)

lemma reach_progress:
  assumes "1 \<le> W" "reach z v (pipeline_init st W) s" "pc s \<noteq> CDone"
  shows "succs z v s \<noteq> []"
  using pinv_reach [OF assms(2)] length_workers_reach [OF assms(2)] assms(1,3)
  by (intro pinv_progress) auto

lemma reach_done_count:
  assumes "reach z v (pipeline_init st W) s" "pc s = CDone"
  shows "num_valid s = int (length (filter v (items st)))"
  using pinv_done [OF pinv_reach [OF assms(1)] assms(2)] by (simp add: nvalid_def)

section \<open>The empty stack and the pool without workers\<close>

lemma idle_inv_step:
  assumes "pstep z v s s'" "idle_inv s"
  shows "idle_inv s'"
  using assms(1)
proof (cases rule: pstep_cases)
  case close
  with assms(2) show ?thesis by (auto simp: idle_inv_def)
next
  case pop
  with assms(2) show ?thesis by (simp add: idle_inv_def)
next
  case (send_closed item)
  with assms(2) show ?thesis by (auto simp: idle_inv_def)
next
  case (recv i item)
  with assms(2) show ?thesis by (auto simp: idle_inv_def)
next
  case (stop i)
  have "set (workers s') \<subseteq> insert (fst (workers s ! i), WDone) (set (workers s))"
    using stop by (simp add: workers_set_worker set_update_subset_insert)
  with assms(2) stop show ?thesis
    by (auto simp: idle_inv_def set_worker_fields)
next
  case (validate i item)
  have "snd (workers s ! i) = WRecv \<or> snd (workers s ! i) = WDone"
    using assms(2) validate(1) by (simp add: idle_inv_def)
  with validate show ?thesis by simp
next
  case (verdict i b)
  with assms(2) show ?thesis by (auto simp: idle_inv_def)
qed

lemma idle_inv_init: "idle_inv (pipeline_init stack_New W)"
  by (auto simp: idle_inv_def pipeline_init_def stack_New_def start_workers_def)

lemma idle_inv_reach:
  assumes "reach z v (pipeline_init stack_New W) s"
  shows "idle_inv s"
  using assms unfolding reach_def
  by (induction rule: rtranclp_induct) (auto intro: idle_inv_init idle_inv_step)

lemma worker_steps_init:
  assumes "i < length (workers (pipeline_init st W))"
  shows "worker_steps v (pipeline_init st W) i = []"
proof -
  have "snd (workers (pipeline_init st W) ! i) = WRecv"
    using assms by (simp add: pipeline_init_def start_workers_def)
  then show ?thesis
    by (simp add: worker_steps_WRecv) (simp add: pipeline_init_def)
qed

lemma succs_init: "succs z v (pipeline_init st W) = coord_steps z (pipeline_init st W)"
  by (simp add: succs_def worker_steps_init)
section \<open>The claims about the worker and the pipeline\<close>

text \<open>
  Claim C9. Take any run of a worker from the start of its loop. The verdicts it has
  sent are, in order, the validator's values on the items it has received, except that
  the verdict of the last item may still be owed; it never owes more than one. Whenever
  the worker is back at the receive, or has left the loop, it has sent exactly one
  verdict per item received. From the receive, a closed input channel takes it out of
  the loop, and once out of the loop it does nothing more. The worker does send: at the
  receive it takes whatever item is offered, validates it and sends the validator's
  value, which brings it back to the receive with one more verdict sent for one more
  item received; holding an item, the only thing it can do is validate it, and it then
  sends that value; holding a verdict, the only thing it can do is send that verdict.
\<close>

theorem worker_one_verdict_per_item:
  "wrun validate WRecv es = Some w \<longrightarrow>
     sent es @ owed validate w = map validate (received es) \<and>
     length (owed validate w) \<le> 1 \<and>
     (w = WRecv \<or> w = WDone \<longrightarrow> sent es = map validate (received es)) \<and>
     (w = WRecv \<longrightarrow> wrun validate WRecv (es @ [EvClosed]) = Some WDone) \<and>
     (w = WDone \<longrightarrow> (\<forall>e. wrun validate WRecv (es @ [e]) = None)) \<and>
     (\<forall>item. w = WRecv \<longrightarrow>
        wrun validate WRecv (es @ [EvRecv item, EvValidate, EvSend (validate item)])
          = Some WRecv \<and>
        sent (es @ [EvRecv item, EvValidate, EvSend (validate item)])
          = sent es @ [validate item] \<and>
        received (es @ [EvRecv item, EvValidate, EvSend (validate item)])
          = received es @ [item]) \<and>
     (\<forall>item. w = WHave item \<longrightarrow>
        wrun validate WRecv (es @ [EvValidate, EvSend (validate item)]) = Some WRecv \<and>
        sent (es @ [EvValidate, EvSend (validate item)]) = map validate (received es) \<and>
        (\<forall>e w'. wstep validate w e = Some w' \<longrightarrow>
           e = EvValidate \<and> w' = WSend (validate item))) \<and>
     (\<forall>b. w = WSend b \<longrightarrow>
        wrun validate WRecv (es @ [EvSend b]) = Some WRecv \<and>
        sent (es @ [EvSend b]) = map validate (received es) \<and>
        (\<forall>e w'. wstep validate w e = Some w' \<longrightarrow> e = EvSend b \<and> w' = WRecv))"
proof
  assume r: "wrun validate WRecv es = Some w"
  have a: "sent es @ owed validate w = map validate (received es)"
    using wrun_owed [OF r] by simp
  have c: "w = WRecv \<or> w = WDone \<longrightarrow> sent es = map validate (received es)"
    using a by auto
  have d: "w = WRecv \<longrightarrow> wrun validate WRecv (es @ [EvClosed]) = Some WDone"
    using r by (simp add: wrun_append)
  have e: "w = WDone \<longrightarrow> (\<forall>e. wrun validate WRecv (es @ [e]) = None)"
    using r by (simp add: wrun_append wstep_WDone)
  have f: "\<forall>item. w = WRecv \<longrightarrow>
        wrun validate WRecv (es @ [EvRecv item, EvValidate, EvSend (validate item)])
          = Some WRecv \<and>
        sent (es @ [EvRecv item, EvValidate, EvSend (validate item)])
          = sent es @ [validate item] \<and>
        received (es @ [EvRecv item, EvValidate, EvSend (validate item)])
          = received es @ [item]"
    using r by (simp add: wrun_append sent_append received_append)
  have g: "\<forall>item. w = WHave item \<longrightarrow>
        wrun validate WRecv (es @ [EvValidate, EvSend (validate item)]) = Some WRecv \<and>
        sent (es @ [EvValidate, EvSend (validate item)]) = map validate (received es) \<and>
        (\<forall>e w'. wstep validate w e = Some w' \<longrightarrow>
           e = EvValidate \<and> w' = WSend (validate item))"
    using r a by (auto simp: wrun_append sent_append wstep_WHave_only)
  have h: "\<forall>b. w = WSend b \<longrightarrow>
        wrun validate WRecv (es @ [EvSend b]) = Some WRecv \<and>
        sent (es @ [EvSend b]) = map validate (received es) \<and>
        (\<forall>e w'. wstep validate w e = Some w' \<longrightarrow> e = EvSend b \<and> w' = WRecv)"
    using r a by (auto simp: wrun_append sent_append wstep_WSend_only)
  from a c d e f g h length_owed [of validate w]
  show "sent es @ owed validate w = map validate (received es) \<and>
     length (owed validate w) \<le> 1 \<and>
     (w = WRecv \<or> w = WDone \<longrightarrow> sent es = map validate (received es)) \<and>
     (w = WRecv \<longrightarrow> wrun validate WRecv (es @ [EvClosed]) = Some WDone) \<and>
     (w = WDone \<longrightarrow> (\<forall>e. wrun validate WRecv (es @ [e]) = None)) \<and>
     (\<forall>item. w = WRecv \<longrightarrow>
        wrun validate WRecv (es @ [EvRecv item, EvValidate, EvSend (validate item)])
          = Some WRecv \<and>
        sent (es @ [EvRecv item, EvValidate, EvSend (validate item)])
          = sent es @ [validate item] \<and>
        received (es @ [EvRecv item, EvValidate, EvSend (validate item)])
          = received es @ [item]) \<and>
     (\<forall>item. w = WHave item \<longrightarrow>
        wrun validate WRecv (es @ [EvValidate, EvSend (validate item)]) = Some WRecv \<and>
        sent (es @ [EvValidate, EvSend (validate item)]) = map validate (received es) \<and>
        (\<forall>e w'. wstep validate w e = Some w' \<longrightarrow>
           e = EvValidate \<and> w' = WSend (validate item))) \<and>
     (\<forall>b. w = WSend b \<longrightarrow>
        wrun validate WRecv (es @ [EvSend b]) = Some WRecv \<and>
        sent (es @ [EvSend b]) = map validate (received es) \<and>
        (\<forall>e w'. wstep validate w e = Some w' \<longrightarrow> e = EvSend b \<and> w' = WRecv))"
    by (intro conjI)
qed

text \<open>
  A worker that receives 4 and then 5 and then sees the channel closed; and the same
  worker stopped while it holds 5, from where it validates and sends \<open>False\<close>.
\<close>

theorem worker_one_verdict_per_item_witness:
  "wrun validate_int WRecv
     [EvRecv 4, EvValidate, EvSend True, EvRecv 5, EvValidate, EvSend False, EvClosed]
     = Some WDone \<and>
   sent [EvRecv (4::int), EvValidate, EvSend True, EvRecv 5, EvValidate, EvSend False, EvClosed]
     = map validate_int
         (received
            [EvRecv 4, EvValidate, EvSend True, EvRecv 5, EvValidate, EvSend False, EvClosed]) \<and>
   sent [EvRecv (4::int), EvValidate, EvSend True, EvRecv 5, EvValidate, EvSend False, EvClosed]
     = [True, False] \<and>
   wrun validate_int WRecv [EvRecv 4, EvValidate, EvSend True, EvRecv 5] = Some (WHave 5) \<and>
   wrun validate_int WRecv
     ([EvRecv 4, EvValidate, EvSend True, EvRecv 5] @ [EvValidate, EvSend (validate_int 5)])
     = Some WRecv \<and>
   sent ([EvRecv (4::int), EvValidate, EvSend True, EvRecv 5]
           @ [EvValidate, EvSend (validate_int 5)])
     = map validate_int (received [EvRecv 4, EvValidate, EvSend True, EvRecv 5])"
proof -
  let ?full = "[EvRecv (4::int), EvValidate, EvSend True, EvRecv 5, EvValidate, EvSend False,
                EvClosed]"
  let ?part = "[EvRecv (4::int), EvValidate, EvSend True, EvRecv 5]"
  have v4: "validate_int 4" and v5: "\<not> validate_int 5"
    by (simp_all add: validate_int_def go_rem_def)
  have r1: "wrun validate_int WRecv ?full = Some WDone"
    by (simp add: v4 v5)
  have r2: "wrun validate_int WRecv ?part = Some (WHave 5)"
    by (simp add: v4)
  have s1: "sent ?full = [True, False]" by simp
  have a: "sent ?full = map validate_int (received ?full)"
    using worker_one_verdict_per_item [of validate_int ?full WDone] r1 by blast
  have b: "wrun validate_int WRecv (?part @ [EvValidate, EvSend (validate_int 5)]) = Some WRecv \<and>
           sent (?part @ [EvValidate, EvSend (validate_int 5)])
             = map validate_int (received ?part)"
    using worker_one_verdict_per_item [of validate_int ?part "WHave 5"] r2 by blast
  from r1 a s1 r2 b show ?thesis by blast
qed

text \<open>
  Claim C1. Start the pipeline on any stack of items, with any validator and any number
  \<open>W \<ge> 1\<close> of workers. Whatever the scheduler does: no run goes on forever; the
  coordinator never panics; as long as the coordinator is not done some goroutine can
  move, so the run cannot get stuck before the coordinator is done; and when the
  coordinator is done the counter is the number of items of the stack for which the
  validator is true.
\<close>

theorem pipeline_count_every_schedule:
  "1 \<le> W \<Longrightarrow>
   wf {(s', s). pstep z validate s s'} \<and>
   (\<forall>s. reach z validate (pipeline_init st W) s \<longrightarrow>
      (\<forall>e. pc s \<noteq> CPanic e) \<and>
      (pc s \<noteq> CDone \<longrightarrow> succs z validate s \<noteq> []) \<and>
      (pc s = CDone \<longrightarrow> num_valid s = int (length (filter validate (items st)))))"
  using wf_pstep [of z validate] reach_no_panic [of z validate st W]
    reach_progress [of W z validate st] reach_done_count [of z validate st W]
  by blast

text \<open>
  Two workers and the items 4 and 5: a schedule in which the second worker takes the
  first item.
\<close>

theorem pipeline_count_every_schedule_witness:
  "(1::int) \<le> 2 \<and>
   reach 0 validate_int (pipeline_init (push_all [4, 5]) 2)
     (run_sched 0 validate_int [0, 1, 0, 0, 0, 0, 0, 0, 0, 0]
        (pipeline_init (push_all [4, 5]) 2)) \<and>
   pc (run_sched 0 validate_int [0, 1, 0, 0, 0, 0, 0, 0, 0, 0]
        (pipeline_init (push_all [4, 5]) 2)) = CDone \<and>
   num_valid (run_sched 0 validate_int [0, 1, 0, 0, 0, 0, 0, 0, 0, 0]
        (pipeline_init (push_all [4, 5]) 2)) = 1"
proof -
  let ?init = "pipeline_init (push_all [4, 5 :: int]) 2"
  let ?fin = "run_sched 0 validate_int [0, 1, 0, 0, 0, 0, 0, 0, 0, 0] ?init"
  have w: "(1::int) \<le> 2" by simp
  have r: "reach 0 validate_int ?init ?fin" by (rule reach_run_sched)
  have d: "pc ?fin = CDone" by code_simp
  have "num_valid ?fin = int (length (filter validate_int (items (push_all [4, 5]))))"
    using pipeline_count_every_schedule [OF w, of 0 validate_int "push_all [4, 5]"] r d
    by blast
  then have "num_valid ?fin = 1"
    by (simp add: items_push_all validate_int_def go_rem_def)
  with w r d show ?thesis by blast
qed

text \<open>
  Claim C8. A stack on which 5, 12, 19 and 26 were pushed in that order, the validator
  ``is even'' of \<^verbatim>\<open>main\<close> and three workers: every run ends, none gets stuck or
  panics before the coordinator is done, and the coordinator then reports 2.
\<close>

theorem scenario_four_ints_counts_two:
  "wf {(s', s). pstep 0 validate_int s s'} \<and>
   (\<forall>s. reach 0 validate_int (pipeline_init (push_all [5, 12, 19, 26]) NUM_WORKERS) s \<longrightarrow>
      (\<forall>e. pc s \<noteq> CPanic e) \<and>
      (pc s \<noteq> CDone \<longrightarrow> succs 0 validate_int s \<noteq> []) \<and>
      (pc s = CDone \<longrightarrow> num_valid s = 2))"
proof -
  have n: "int (length (filter validate_int (items (push_all [5, 12, 19, 26])))) = 2"
    by (simp add: items_push_all validate_int_def go_rem_def)
  have w: "1 \<le> NUM_WORKERS" by (simp add: NUM_WORKERS_def)
  show ?thesis
    using wf_pstep [of 0 validate_int]
      reach_no_panic [of 0 validate_int "push_all [5, 12, 19, 26]" NUM_WORKERS]
      reach_progress [OF w, of 0 validate_int "push_all [5, 12, 19, 26]"]
      reach_done_count [of 0 validate_int "push_all [5, 12, 19, 26]" NUM_WORKERS]
    unfolding n by blast
qed

text \<open>
  One of the runs: 26 goes to the third worker, 19 to the second, 12 to the first and
  5 to the second.
\<close>

theorem scenario_four_ints_counts_two_witness:
  "reach 0 validate_int (pipeline_init (push_all [5, 12, 19, 26]) NUM_WORKERS)
     (run_sched 0 validate_int [0, 2, 0, 0, 0, 1, 0, 0, 0, 0, 0, 0, 0, 1, 0, 0, 0, 2, 0]
        (pipeline_init (push_all [5, 12, 19, 26]) NUM_WORKERS)) \<and>
   pc (run_sched 0 validate_int [0, 2, 0, 0, 0, 1, 0, 0, 0, 0, 0, 0, 0, 1, 0, 0, 0, 2, 0]
        (pipeline_init (push_all [5, 12, 19, 26]) NUM_WORKERS)) = CDone \<and>
   num_valid (run_sched 0 validate_int [0, 2, 0, 0, 0, 1, 0, 0, 0, 0, 0, 0, 0, 1, 0, 0, 0, 2, 0]
        (pipeline_init (push_all [5, 12, 19, 26]) NUM_WORKERS)) = 2"
proof -
  let ?init = "pipeline_init (push_all [5, 12, 19, 26 :: int]) NUM_WORKERS"
  let ?fin = "run_sched 0 validate_int [0, 2, 0, 0, 0, 1, 0, 0, 0, 0, 0, 0, 0, 1, 0, 0, 0, 2, 0] ?init"
  have r: "reach 0 validate_int ?init ?fin" by (rule reach_run_sched)
  have d: "pc ?fin = CDone" by code_simp
  have "num_valid ?fin = 2"
    using scenario_four_ints_counts_two r d by blast
  with r d show ?thesis by blast
qed

text \<open>
  Claim C6. On an empty stack, with any number of workers, the only step the program can
  take at the start is the coordinator closing the input channel and being done; in every
  state of every run the counter is 0 and the coordinator is at the loop head or done,
  never inside the loop body; and when it is done the channel is closed.
\<close>

theorem empty_sequence_closes_at_once:
  "succs z validate (pipeline_init stack_New W)
     = [(pipeline_init stack_New W)\<lparr>closed := True, pc := CDone\<rparr>] \<and>
   (\<forall>s. reach z validate (pipeline_init stack_New W) s \<longrightarrow>
      num_valid s = 0 \<and> (pc s = CLoop \<or> pc s = CDone) \<and> (pc s = CDone \<longrightarrow> closed s))"
proof (intro conjI allI impI)
  show "succs z validate (pipeline_init stack_New W)
     = [(pipeline_init stack_New W)\<lparr>closed := True, pc := CDone\<rparr>]"
    by (simp add: succs_init coord_steps_eq) (simp add: pipeline_init_def stack_New_def)
next
  fix s assume "reach z validate (pipeline_init stack_New W) s"
  from idle_inv_reach [OF this]
  show "num_valid s = 0" "pc s = CLoop \<or> pc s = CDone" by (simp_all add: idle_inv_def)
next
  fix s assume "reach z validate (pipeline_init stack_New W) s" "pc s = CDone"
  with idle_inv_reach [of z validate W s] show "closed s" by (simp add: idle_inv_def)
qed

text \<open>Three workers and no item: the coordinator closes, then the first worker leaves.\<close>

theorem empty_sequence_closes_at_once_witness:
  "reach 0 validate_int (pipeline_init stack_New NUM_WORKERS)
     (run_sched 0 validate_int [0, 0] (pipeline_init stack_New NUM_WORKERS)) \<and>
   pc (run_sched 0 validate_int [0, 0] (pipeline_init stack_New NUM_WORKERS)) = CDone \<and>
   num_valid (run_sched 0 validate_int [0, 0] (pipeline_init stack_New NUM_WORKERS)) = 0 \<and>
   closed (run_sched 0 validate_int [0, 0] (pipeline_init stack_New NUM_WORKERS))"
proof -
  let ?init = "pipeline_init (stack_New :: int Stack) NUM_WORKERS"
  let ?fin = "run_sched 0 validate_int [0, 0] ?init"
  have r: "reach 0 validate_int ?init ?fin" by (rule reach_run_sched)
  have d: "pc ?fin = CDone" by code_simp
  have "num_valid ?fin = 0 \<and> closed ?fin"
    using empty_sequence_closes_at_once [of 0 validate_int NUM_WORKERS] r d by blast
  with r d show ?thesis by blast
qed

text \<open>
  Claim C7, as the spec states it: with a worker count of 0 or less the coordinator
  rejects the configuration before it spawns a worker or sends an item. The program has
  no such check. With no worker and the single item 5 on the stack, the one step open at
  the start is the coordinator popping 5 and going to its send; there is no worker to
  receive, so from there nothing can move: the coordinator is blocked in its first send.
\<close>

theorem zero_workers_not_rejected_counterexample:
  "workers (pipeline_init (push_all [5::int]) 0) = [] \<and>
   succs 0 validate_int (pipeline_init (push_all [5]) 0)
     = [\<lparr>stack = \<lparr>items = []\<rparr>, pc = CSend 5, num_valid = 0, closed = False, workers = []\<rparr>] \<and>
   succs 0 validate_int
     \<lparr>stack = \<lparr>items = []\<rparr>, pc = CSend 5, num_valid = 0, closed = False, workers = []\<rparr> = []"
  by code_simp

text \<open>
  Claim C7, amended. With a worker count of 0 or less the spawn loop starts no worker.
  On a stack that is not empty the coordinator then pops the top item, goes to its first
  send, and stays blocked there for ever: that state has no successor. (In \<^verbatim>\<open>main\<close>
  the count is the constant \<open>NUM_WORKERS = 3\<close>, so this does not arise there.)
\<close>

theorem no_workers_blocks_on_first_send:
  "W \<le> 0 \<Longrightarrow> items st \<noteq> [] \<Longrightarrow>
   workers (pipeline_init st W) = [] \<and>
   succs z validate (pipeline_init st W)
     = [\<lparr>stack = st\<lparr>items := butlast (items st)\<rparr>, pc = CSend (last (items st)),
         num_valid = 0, closed = False, workers = []\<rparr>] \<and>
   succs z validate \<lparr>stack = st\<lparr>items := butlast (items st)\<rparr>, pc = CSend (last (items st)),
         num_valid = 0, closed = False, workers = []\<rparr> = []"
  by (simp add: succs_def coord_steps_eq) (simp add: pipeline_init_def start_workers_def)

theorem no_workers_blocks_on_first_send_witness:
  "(-1::int) \<le> 0 \<and> items (push_all [5, 12 :: int]) \<noteq> [] \<and>
   workers (pipeline_init (push_all [5, 12 :: int]) (-1)) = [] \<and>
   succs 0 validate_int (pipeline_init (push_all [5, 12]) (-1))
     = [\<lparr>stack = \<lparr>items = [5]\<rparr>, pc = CSend 12, num_valid = 0, closed = False, workers = []\<rparr>] \<and>
   succs 0 validate_int
     \<lparr>stack = \<lparr>items = [5]\<rparr>, pc = CSend 12, num_valid = 0, closed = False, workers = []\<rparr> = []"
proof -
  have w: "(-1::int) \<le> 0" by simp
  have i: "items (push_all [5, 12 :: int]) \<noteq> []" by (simp add: items_push_all)
  have p: "(push_all [5, 12 :: int])\<lparr>items := butlast (items (push_all [5, 12]))\<rparr> = \<lparr>items = [5]\<rparr>"
    by (simp add: items_push_all)
  have l: "last (items (push_all [5, 12 :: int])) = 12" by (simp add: items_push_all)
  show ?thesis
    using no_workers_blocks_on_first_send [OF w i, of 0 validate_int] w i
    unfolding p l by blast
qed

end
